theory Spec2Isabelle
  imports Main "HOL-Library.Sublist"
begin

section \<open>Python string primitives used by utils.py\<close>

text \<open>
  Python strings are sequences of code points. They are modelled as \<open>string\<close>, a
  \<open>char\<close> standing for a code point below 256. \<open>isspace\<close> is \<open>str.isspace\<close> on
  that range: it decides what \<open>str.strip()\<close> removes and what the pattern \<open>\s\<close>
  matches. \<open>isdigit\<close> is what the pattern \<open>\d\<close> matches there.
\<close>

definition isspace :: "char \<Rightarrow> bool" where
  "isspace c = (c \<in> set [CHR 0x09, CHR 0x0A, CHR 0x0B, CHR 0x0C, CHR 0x0D,
     CHR 0x1C, CHR 0x1D, CHR 0x1E, CHR 0x1F, CHR 0x20, CHR 0x85, CHR 0xA0])"

definition isdigit :: "char \<Rightarrow> bool" where
  "isdigit c = (c \<in> set ''0123456789'')"

text \<open>\<open>s.strip()\<close>: leading and trailing whitespace removed.\<close>

definition strip :: "string \<Rightarrow> string" where
  "strip s = rev (dropWhile isspace (rev (dropWhile isspace s)))"

text \<open>\<open>s.startswith(p)\<close>.\<close>

definition startswith :: "string \<Rightarrow> string \<Rightarrow> bool" where
  "startswith s p = prefix p s"

text \<open>\<open>s.split('\n')\<close>: never empty, one more piece than there are line feeds.\<close>

fun split_nl :: "string \<Rightarrow> string list" where
  "split_nl [] = [[]]"
| "split_nl (c # cs) =
     (if c = CHR 0x0A then [] # split_nl cs
      else (case split_nl cs of [] \<Rightarrow> [[c]] | l # ls \<Rightarrow> (c # l) # ls))"

text \<open>\<open>sep.join(xs)\<close>.\<close>

fun join :: "string \<Rightarrow> string list \<Rightarrow> string" where
  "join sep [] = []"
| "join sep [x] = x"
| "join sep (x # y # ys) = x @ sep @ join sep (y # ys)"

text \<open>
  Slice bounds: Python adds the length to a negative bound and clamps the result
  to \<open>0 .. len\<close>. \<open>slice_to s k\<close> is \<open>s[:k]\<close>, \<open>slice_from s k\<close> is \<open>s[k:]\<close>.
\<close>

definition py_bound :: "int \<Rightarrow> nat \<Rightarrow> nat" where
  "py_bound k n = (if k < 0 then nat (max 0 (k + int n)) else min (nat k) n)"

definition slice_to :: "string \<Rightarrow> int \<Rightarrow> string" where
  "slice_to s k = take (py_bound k (length s)) s"

definition slice_from :: "string \<Rightarrow> int \<Rightarrow> string" where
  "slice_from s k = drop (py_bound k (length s)) s"

text \<open>
  \<open>rindex c s\<close>: the highest index of \<open>c\<close> in \<open>s\<close>, or \<open>-1\<close>.
  \<open>rfind s c e\<close> is \<open>s.rfind(c, 0, e)\<close> for a one-character needle.
\<close>

fun rindex :: "char \<Rightarrow> string \<Rightarrow> int" where
  "rindex c [] = -1"
| "rindex c (x # xs) =
     (let r = rindex c xs in if 0 \<le> r then r + 1 else if x = c then 0 else -1)"

definition rfind :: "string \<Rightarrow> char \<Rightarrow> int \<Rightarrow> int" where
  "rfind s c e = rindex c (slice_to s e)"


section \<open>chunk\_content\<close>

text \<open>
  One pass through the body of the \<open>while\<close> loop for content longer than
  \<open>chunk_size\<close>: the chunk appended and the content left.
\<close>

definition chunk_step :: "int \<Rightarrow> string \<Rightarrow> string \<times> string" where
  "chunk_step chunk_size content =
     (let last_space = rfind content CHR '' '' chunk_size;
          chunk_end = (if last_space > 0 then last_space else chunk_size)
      in (strip (slice_to content chunk_end), strip (slice_from content chunk_end)))"

text \<open>
  The loop itself. Nothing in the source bounds it (with \<open>chunk_size = 0\<close> the
  content never shrinks), so not returning is the value \<open>None\<close>.
\<close>

partial_function (option) chunk_loop :: "int \<Rightarrow> string \<Rightarrow> string list \<Rightarrow> string list option" where
  "chunk_loop chunk_size content chunks =
     (if length content > 0 then
        (if int (length content) \<le> chunk_size then Some (chunks @ [content])
         else (case chunk_step chunk_size content of
                 (chunk, content') \<Rightarrow> chunk_loop chunk_size content' (chunks @ [chunk])))
      else Some chunks)"

declare chunk_loop.simps [code]

definition chunk_content :: "string \<Rightarrow> int \<Rightarrow> string list option" where
  "chunk_content content chunk_size = chunk_loop chunk_size content []"


text \<open>
  The words of a string: its maximal runs of characters that are not whitespace, in
  order. \<open>split_ws\<close> cuts at every whitespace character; the empty pieces are not words.
\<close>

fun split_ws :: "string \<Rightarrow> string list" where
  "split_ws [] = [[]]"
| "split_ws (c # cs) =
     (if isspace c then [] # split_ws cs
      else (case split_ws cs of [] \<Rightarrow> [[c]] | w # ws \<Rightarrow> (c # w) # ws))"

definition words_of :: "string \<Rightarrow> string list" where
  "words_of s = filter (\<lambda>w. w \<noteq> []) (split_ws s)"

text \<open>
  Three conditions on the input of the chunker: its only whitespace characters are
  spaces; it does not start with whitespace; none of its words is longer than the
  chunk size.
\<close>

definition only_spaces :: "string \<Rightarrow> bool" where
  "only_spaces s = (\<forall>c\<in>set s. isspace c \<longrightarrow> c = CHR '' '')"

definition no_lead :: "string \<Rightarrow> bool" where
  "no_lead s = (s = [] \<or> \<not> isspace (hd s))"

definition words_fit :: "int \<Rightarrow> string \<Rightarrow> bool" where
  "words_fit M s = (\<forall>w\<in>set (words_of s). int (length w) \<le> M)"


section \<open>parse\_inline\_markdown\<close>

text \<open>
  A rich text object \<open>{"type": "text", "text": {"content": c}, "annotations": {a: True}}\<close>;
  the \<open>annotations\<close> key is absent from plain text.
\<close>

datatype annotation = Bold | Strikethrough | Italic

record rich_text_obj =
  text_content :: string
  annotations :: "annotation option"

definition plain :: "string \<Rightarrow> rich_text_obj" where
  "plain s = \<lparr>text_content = s, annotations = None\<rparr>"

definition styled :: "string \<Rightarrow> annotation \<Rightarrow> rich_text_obj" where
  "styled s a = \<lparr>text_content = s, annotations = Some a\<rparr>"

text \<open>
  The pattern is \<open>\*\*(.+?)\*\*|__(.+?)__|~~(.+?)~~|_(.+?)_|\*(.+?)\*\<close>.
  \<open>lazy_dot_plus d s\<close> is \<open>(.+?)\<close> followed by the closing delimiter \<open>d\<close>, matched
  at the start of \<open>s\<close>: the group takes one character that is not a line feed, then
  as few more as it needs for \<open>d\<close> to follow. The result is the group.
\<close>

fun lazy_dot_plus :: "string \<Rightarrow> string \<Rightarrow> string option" where
  "lazy_dot_plus d [] = None"
| "lazy_dot_plus d (c # cs) =
     (if c = CHR 0x0A then None
      else if prefix d cs then Some [c]
      else map_option ((#) c) (lazy_dot_plus d cs))"

text \<open>One alternative \<open>d(.+?)d\<close> at the start of \<open>s\<close>.\<close>

definition alt :: "string \<Rightarrow> string \<Rightarrow> string option" where
  "alt d s = (if prefix d s then lazy_dot_plus d (drop (length d) s) else None)"

text \<open>A match object: its span and its five groups, at most one of them set.\<close>

record re_match =
  m_start :: nat
  m_end :: nat
  group1 :: "string option"
  group2 :: "string option"
  group3 :: "string option"
  group4 :: "string option"
  group5 :: "string option"

definition mk_match :: "nat \<Rightarrow> nat \<Rightarrow> nat \<Rightarrow> string \<Rightarrow> re_match" where
  "mk_match pos k n g =
     \<lparr>m_start = pos, m_end = pos + n + length g + n,
      group1 = (if k = 1 then Some g else None),
      group2 = (if k = 2 then Some g else None),
      group3 = (if k = 3 then Some g else None),
      group4 = (if k = 4 then Some g else None),
      group5 = (if k = 5 then Some g else None)\<rparr>"

text \<open>The pattern matched at position \<open>pos\<close>: the alternatives in their order.\<close>

definition match_at :: "string \<Rightarrow> nat \<Rightarrow> re_match option" where
  "match_at text pos =
     (let s = drop pos text in
      case alt ''**'' s of Some g \<Rightarrow> Some (mk_match pos 1 2 g) | None \<Rightarrow>
      (case alt ''__'' s of Some g \<Rightarrow> Some (mk_match pos 2 2 g) | None \<Rightarrow>
      (case alt ''~~'' s of Some g \<Rightarrow> Some (mk_match pos 3 2 g) | None \<Rightarrow>
      (case alt ''_'' s of Some g \<Rightarrow> Some (mk_match pos 4 1 g) | None \<Rightarrow>
      (case alt ''*'' s of Some g \<Rightarrow> Some (mk_match pos 5 1 g) | None \<Rightarrow> None)))))"

text \<open>
  \<open>re.finditer\<close>: the leftmost match from \<open>pos\<close> on, then the search goes on at
  its end (no match is empty; the empty rest of the text matches nothing).
\<close>

function finditer :: "string \<Rightarrow> nat \<Rightarrow> re_match list" where
  "finditer text pos =
     (if pos < length text then
        (case match_at text pos of
           None \<Rightarrow> finditer text (pos + 1)
         | Some m \<Rightarrow> m # finditer text (m_end m))
      else [])"
  by pat_completeness auto
termination
proof (relation "measure (\<lambda>(text, pos). length text - pos)")
  fix s :: string and pos m
  assume "pos < length s" and "match_at s pos = Some m"
  then have "pos < m_end m"
    by (auto simp: match_at_def mk_match_def Let_def split: option.splits)
  with \<open>pos < length s\<close>
  show "((s, m_end m), (s, pos)) \<in> measure (\<lambda>(text, pos). length text - pos)"
    by simp
qed auto

declare finditer.simps [simp del]

text \<open>Truth value of \<open>match.group(k)\<close>: \<open>None\<close> and the empty string are false.\<close>

definition truthy :: "string option \<Rightarrow> bool" where
  "truthy g = (case g of None \<Rightarrow> False | Some s \<Rightarrow> s \<noteq> [])"

text \<open>The \<open>if\<close>/\<open>elif\<close> chain on the groups: what one match appends.\<close>

definition formatted :: "re_match \<Rightarrow> rich_text_obj list" where
  "formatted m =
     (if truthy (group1 m) then [styled (the (group1 m)) Bold]
      else if truthy (group2 m) then [styled (the (group2 m)) Bold]
      else if truthy (group3 m) then [styled (the (group3 m)) Strikethrough]
      else if truthy (group4 m) then [styled (the (group4 m)) Italic]
      else if truthy (group5 m) then [styled (the (group5 m)) Italic]
      else [])"

text \<open>The \<open>for\<close> loop over the matches, on the state \<open>(rich_text, last_end)\<close>.\<close>

fun inline_loop :: "string \<Rightarrow> re_match list \<Rightarrow> rich_text_obj list \<Rightarrow> nat \<Rightarrow> rich_text_obj list \<times> nat" where
  "inline_loop text [] rich_text last_end = (rich_text, last_end)"
| "inline_loop text (m # ms) rich_text last_end =
     (let rich_text =
            (if m_start m > last_end
             then rich_text @ [plain (take (m_start m - last_end) (drop last_end text))]
             else rich_text);
          rich_text = rich_text @ formatted m
      in inline_loop text ms rich_text (m_end m))"

definition parse_inline_markdown :: "string \<Rightarrow> rich_text_obj list" where
  "parse_inline_markdown text =
     (case inline_loop text (finditer text 0) [] 0 of
        (rich_text, last_end) \<Rightarrow>
          (let rich_text =
                 (if last_end < length text then rich_text @ [plain (drop last_end text)]
                  else rich_text)
           in if rich_text \<noteq> [] then rich_text else [plain text]))"


section \<open>markdown\_to\_notion\_blocks\<close>

text \<open>
  A block \<open>{"object": "block", "type": t, t: {"rich_text": [...]}}\<close>, one
  constructor for each value of \<open>type\<close>; a code block also has its \<open>language\<close>.
\<close>

datatype block =
    Heading_1 "rich_text_obj list"
  | Heading_2 "rich_text_obj list"
  | Heading_3 "rich_text_obj list"
  | Bulleted_list_item "rich_text_obj list"
  | Numbered_list_item "rich_text_obj list"
  | Code "rich_text_obj list" string
  | Paragraph "rich_text_obj list"

text \<open>\<open>lines[i]\<close> raises \<open>IndexError\<close> out of range (the index is never negative here).\<close>

datatype error = IndexError

definition py_index :: "'a list \<Rightarrow> nat \<Rightarrow> error + 'a" where
  "py_index xs i = (if i < length xs then Inr (xs ! i) else Inl IndexError)"

text \<open>
  The pattern \<open>^\d+\.\s\<close> at the start of \<open>s\<close>: \<open>None\<close> where \<open>re.match\<close> finds
  nothing, otherwise what \<open>re.sub\<close> leaves when it removes the match.
\<close>

definition sub_numbered :: "string \<Rightarrow> string option" where
  "sub_numbered s =
     (case dropWhile isdigit s of
        d # c # rest \<Rightarrow>
          (if takeWhile isdigit s \<noteq> [] \<and> d = CHR ''.'' \<and> isspace c then Some rest else None)
      | _ \<Rightarrow> None)"

text \<open>A fence line: \<open>line.strip().startswith('```')\<close>.\<close>

definition is_fence :: "string \<Rightarrow> bool" where
  "is_fence line = startswith (strip line) ''```''"

text \<open>
  The inner \<open>while\<close> loop of a code block, on the state \<open>(i, code_lines)\<close>: it stops
  at the end of the input or at a line whose stripped form starts with three backticks.
\<close>

function code_loop :: "string list \<Rightarrow> nat \<Rightarrow> string list \<Rightarrow> error + (nat \<times> string list)" where
  "code_loop lines i code_lines =
     (if i < length lines then
        (case py_index lines i of
           Inl e \<Rightarrow> Inl e
         | Inr line \<Rightarrow>
             (if \<not> startswith (strip line) ''```''
              then code_loop lines (i + 1) (code_lines @ [line])
              else Inr (i, code_lines)))
      else Inr (i, code_lines))"
  by pat_completeness auto
termination
  by (relation "measure (\<lambda>(lines, i, code_lines). length lines - i)") auto

declare code_loop.simps [simp del]

text \<open>
  The body of the outer \<open>while\<close> loop for the line at index \<open>i\<close>, up to and
  including the closing \<open>i += 1\<close>: the new state \<open>(i, blocks)\<close>.
\<close>

definition block_step :: "string list \<Rightarrow> nat \<Rightarrow> block list \<Rightarrow> error + (nat \<times> block list)" where
  "block_step lines i blocks =
     (case py_index lines i of
        Inl e \<Rightarrow> Inl e
      | Inr line \<Rightarrow>
          (let stripped = strip line in
           if stripped = [] then Inr (i + 1, blocks)
           else if startswith stripped ''### '' then
             Inr (i + 1, blocks @ [Heading_3 [plain (strip (drop 4 stripped))]])
           else if startswith stripped ''## '' then
             Inr (i + 1, blocks @ [Heading_2 [plain (strip (drop 3 stripped))]])
           else if startswith stripped ''# '' then
             Inr (i + 1, blocks @ [Heading_1 [plain (strip (drop 2 stripped))]])
           else if startswith stripped ''- '' then
             Inr (i + 1, blocks @ [Bulleted_list_item [plain (strip (drop 2 stripped))]])
           else if sub_numbered stripped \<noteq> None then
             (let content = the (sub_numbered stripped)
              in Inr (i + 1, blocks @ [Numbered_list_item [plain (strip content)]]))
           else if startswith stripped ''```'' then
             (case code_loop lines (i + 1) [] of
                Inl e \<Rightarrow> Inl e
              | Inr (j, code_lines) \<Rightarrow>
                  Inr (j + 1, blocks @ [Code [plain (join [CHR 0x0A] code_lines)] ''text'']))
           else
             (let rich_text = parse_inline_markdown stripped
              in if rich_text \<noteq> [] then Inr (i + 1, blocks @ [Paragraph rich_text])
                 else Inr (i + 1, blocks))))"

text \<open>
  The outer loop. It is a \<open>while\<close> loop on an index that the code block branch moves
  by more than one, so not returning is the value \<open>None\<close>, and that it always returns
  is a theorem.
\<close>

partial_function (option) blocks_loop :: "string list \<Rightarrow> nat \<Rightarrow> block list \<Rightarrow> (error + block list) option" where
  "blocks_loop lines i blocks =
     (if i < length lines then
        (case block_step lines i blocks of
           Inl e \<Rightarrow> Some (Inl e)
         | Inr (i', blocks') \<Rightarrow> blocks_loop lines i' blocks')
      else Some (Inr blocks))"

declare blocks_loop.simps [code]

definition markdown_to_notion_blocks :: "string \<Rightarrow> (error + block list) option" where
  "markdown_to_notion_blocks markdown_text = blocks_loop (split_nl markdown_text) 0 []"


text \<open>
  What it means that the loop, at line \<open>i\<close> with \<open>blocks\<close> collected so far, emits
  the block \<open>b\<close> for that line: the pass appends \<open>b\<close> alone and moves to the next
  line, and the parser's result has \<open>b\<close> right after \<open>blocks\<close>.
\<close>

definition emits :: "string list \<Rightarrow> nat \<Rightarrow> block list \<Rightarrow> block \<Rightarrow> bool" where
  "emits lines i blocks b =
     (block_step lines i blocks = Inr (i + 1, blocks @ [b]) \<and>
      (\<exists>rest. blocks_loop lines i blocks = Some (Inr (blocks @ b # rest))))"


section \<open>extract\_title\_from\_markdown\<close>

text \<open>\<open>re.sub(r'^#+\s*', '', line)\<close>: the pattern can match at the start only.\<close>

definition sub_hashes :: "string \<Rightarrow> string" where
  "sub_hashes line =
     (if startswith line ''#''
      then dropWhile isspace (dropWhile (\<lambda>c. c = CHR ''#'') line)
      else line)"

fun title_loop :: "string list \<Rightarrow> string option" where
  "title_loop [] = None"
| "title_loop (line # lines) =
     (if startswith (strip line) ''#'' then Some (strip (sub_hashes line))
      else title_loop lines)"

definition extract_title_from_markdown :: "string \<Rightarrow> string option" where
  "extract_title_from_markdown text = title_loop (split_nl text)"


section \<open>extract\_section\<close>







section \<open>Facts about the string primitives\<close>

lemma length_strip_le: "length (strip s) \<le> length s"
proof -
  have "length (dropWhile isspace (rev (dropWhile isspace s))) \<le> length (rev (dropWhile isspace s))"
    by (rule length_dropWhile_le)
  then have "length (strip s) \<le> length (dropWhile isspace s)"
    unfolding strip_def by simp
  also have "\<dots> \<le> length s" by (rule length_dropWhile_le)
  finally show ?thesis .
qed

lemma rindex_bounds: "- 1 \<le> rindex c s \<and> rindex c s < int (length s)"
  by (induction s) (auto simp: Let_def)

lemma rfind_lt_bound:
  assumes "0 \<le> e"
  shows "rfind s c e < max 1 e"
proof -
  have "rindex c (slice_to s e) < int (length (slice_to s e))"
    using rindex_bounds by blast
  moreover have "int (length (slice_to s e)) \<le> e"
    using assms by (simp add: slice_to_def py_bound_def)
  ultimately show ?thesis by (simp add: rfind_def)
qed


lemma split_nl_nonempty: "split_nl s \<noteq> []"
  by (induction s) (auto split: list.splits)

lemma split_nl_no_nl: "l \<in> set (split_nl s) \<Longrightarrow> CHR 0x0A \<notin> set l"
proof (induction s arbitrary: l)
  case Nil
  then show ?case by simp
next
  case (Cons c cs)
  show ?case
  proof (cases "c = CHR 0x0A")
    case True
    with Cons show ?thesis by auto
  next
    case False
    obtain x xs where sp: "split_nl cs = x # xs"
      using split_nl_nonempty [of cs] by (cases "split_nl cs") auto
    with False Cons.prems have "l = c # x \<or> l \<in> set xs" by simp
    with False sp Cons.IH show ?thesis by auto
  qed
qed

lemma split_nl_line:
  "CHR 0x0A \<notin> set l \<Longrightarrow> split_nl (l @ CHR 0x0A # s) = l # split_nl s"
  by (induction l) auto

lemma split_nl_plain: "CHR 0x0A \<notin> set l \<Longrightarrow> split_nl l = [l]"
  by (induction l) auto

lemma split_nl_join:
  "ls \<noteq> [] \<Longrightarrow> \<forall>l\<in>set ls. CHR 0x0A \<notin> set l \<Longrightarrow> split_nl (join [CHR 0x0A] ls) = ls"
proof (induction "[CHR 0x0A]" ls rule: join.induct)
  case 1
  then show ?case by simp
next
  case (2 x)
  then show ?case by (simp add: split_nl_plain)
next
  case (3 x y ys)
  then show ?case by (simp add: split_nl_line)
qed


lemma set_strip: "set (strip s) \<subseteq> set s"
proof -
  have "set (strip s) \<subseteq> set (dropWhile isspace s)"
    unfolding strip_def using set_dropWhileD by fastforce
  also have "\<dots> \<subseteq> set s" using set_dropWhileD by fastforce
  finally show ?thesis .
qed


lemma strip_no_lead: "strip s = [] \<or> \<not> isspace (hd (strip s))"
proof (cases "strip s = []")
  case True
  then show ?thesis by simp
next
  case False
  define t where "t = dropWhile isspace s"
  have pre: "t = strip s @ rev (takeWhile isspace (rev t))"
  proof -
    have "rev t = takeWhile isspace (rev t) @ dropWhile isspace (rev t)" by simp
    then have "rev (rev t) = rev (takeWhile isspace (rev t) @ dropWhile isspace (rev t))"
      by (rule arg_cong)
    then have "t = rev (dropWhile isspace (rev t)) @ rev (takeWhile isspace (rev t))"
      by (simp only: rev_rev_ident rev_append)
    then show ?thesis by (simp only: strip_def t_def)
  qed
  with False have "t \<noteq> []" by auto
  then have "\<not> isspace (hd t)" unfolding t_def by (rule hd_dropWhile)
  moreover from pre False have "hd t = hd (strip s)" by (metis hd_append2)
  ultimately show ?thesis by simp
qed

lemma rindex_neg: "rindex c s < 0 \<Longrightarrow> c \<notin> set s"
  by (induction s) (auto simp: Let_def split: if_splits)

lemma rindex_le0: "rindex c s \<le> 0 \<Longrightarrow> c \<notin> set (tl s)"
proof (cases s)
  case Nil
  then show ?thesis by simp
next
  case (Cons x xs)
  assume "rindex c s \<le> 0"
  with Cons have "rindex c xs < 0" by (auto simp: Let_def split: if_splits)
  with Cons show ?thesis by (simp add: rindex_neg)
qed

lemma rindex_hit: "0 \<le> rindex c s \<Longrightarrow> nat (rindex c s) < length s \<and> s ! nat (rindex c s) = c"
proof (induction s)
  case Nil
  then show ?case by simp
next
  case (Cons x xs)
  show ?case
  proof (cases "0 \<le> rindex c xs")
    case True
    with Cons.IH have "nat (rindex c xs) < length xs \<and> xs ! nat (rindex c xs) = c" by simp
    moreover from True have "nat (rindex c xs + 1) = Suc (nat (rindex c xs))" by simp
    ultimately show ?thesis using True by (simp add: Let_def)
  next
    case False
    with Cons.prems show ?thesis by (auto simp: Let_def split: if_splits)
  qed
qed


section \<open>Facts about words\<close>

lemma split_ws_nonempty: "split_ws s \<noteq> []"
  by (induction s) (auto split: list.splits)

lemma split_ws_space:
  "isspace sp \<Longrightarrow> split_ws (a @ sp # b) = split_ws a @ split_ws b"
proof (induction a)
  case Nil
  then show ?case by simp
next
  case (Cons c a)
  obtain w ws where "split_ws a = w # ws"
    using split_ws_nonempty [of a] by (cases "split_ws a") auto
  with Cons show ?case by simp
qed

lemma split_ws_word:
  "\<forall>c\<in>set w. \<not> isspace c \<Longrightarrow> split_ws (w @ s) = (w @ hd (split_ws s)) # tl (split_ws s)"
proof (induction w)
  case Nil
  then show ?case using split_ws_nonempty [of s] by simp
next
  case (Cons c w)
  then show ?case by simp
qed

lemma words_of_space: "isspace sp \<Longrightarrow> words_of (a @ sp # b) = words_of a @ words_of b"
  by (simp add: words_of_def split_ws_space)

lemma words_of_Nil: "words_of [] = []"
  by (simp add: words_of_def)

lemma words_of_lead: "isspace sp \<Longrightarrow> words_of (sp # s) = words_of s"
  by (simp add: words_of_def)

lemma words_of_trail: "isspace sp \<Longrightarrow> words_of (s @ [sp]) = words_of s"
  using words_of_space [of sp s "[]"] by (simp add: words_of_Nil)

lemma words_of_dropWhile: "words_of (dropWhile isspace s) = words_of s"
  by (induction s) (simp_all add: words_of_lead)

lemma words_of_rev_dropWhile: "words_of (rev (dropWhile isspace (rev s))) = words_of s"
  by (induction s rule: rev_induct) (simp_all add: words_of_trail)

lemma words_of_strip: "words_of (strip s) = words_of s"
  by (simp add: strip_def words_of_rev_dropWhile words_of_dropWhile)


lemma words_of_join:
  "words_of (join '' '' chunks) = concat (map words_of chunks)"
proof (induction "'' ''" chunks rule: join.induct)
  case 1
  then show ?case by (simp add: words_of_Nil)
next
  case (2 x)
  then show ?case by simp
next
  case (3 x y ys)
  have "isspace CHR '' ''" by (simp add: isspace_def)
  then have "words_of (x @ CHR '' '' # join '' '' (y # ys)) =
      words_of x @ words_of (join '' '' (y # ys))"
    by (rule words_of_space)
  with 3 show ?case by simp
qed


section \<open>Facts about the inline parser\<close>

lemma alt_None_first:
  assumes "s = [] \<or> hd s \<notin> set ''*_~''"
  shows "alt ''**'' s = None" and "alt ''__'' s = None" and "alt ''~~'' s = None"
    and "alt ''_'' s = None" and "alt ''*'' s = None"
  using assms by (cases s; auto simp: alt_def)+

lemma match_at_plain_char:
  assumes "pos < length text" and "text ! pos \<notin> set ''*_~''"
  shows "match_at text pos = None"
proof -
  from assms(1) have "drop pos text = text ! pos # drop (Suc pos) text"
    by (simp add: Cons_nth_drop_Suc)
  with assms(2) have "drop pos text = [] \<or> hd (drop pos text) \<notin> set ''*_~''" by simp
  then show ?thesis by (simp add: match_at_def alt_None_first)
qed

lemma match_at_plain_chars:
  assumes "\<forall>c\<in>set s. c \<notin> set ''*_~''" and "text = a @ s @ b"
    and "length a \<le> p" and "p < length a + length s"
  shows "match_at text p = None"
proof -
  have "text ! p = (s @ b) ! (p - length a)" using assms(2,3) by (simp add: nth_append)
  also have "\<dots> = s ! (p - length a)"
  proof -
    from assms(3,4) have "p - length a < length s" by arith
    then show ?thesis by (simp add: nth_append)
  qed
  finally have "text ! p = s ! (p - length a)" .
  moreover have "s ! (p - length a) \<in> set s" using assms(3,4) by (intro nth_mem) auto
  ultimately have "text ! p \<notin> set ''*_~''" using assms(1) by metis
  then show ?thesis using assms(2,4) by (intro match_at_plain_char) auto
qed

lemma finditer_skip:
  assumes "\<forall>p. pos \<le> p \<and> p < q \<longrightarrow> match_at text p = None"
    and "pos \<le> q" and "q \<le> length text"
  shows "finditer text pos = finditer text q"
  using assms
proof (induction "q - pos" arbitrary: pos)
  case 0
  then show ?case by simp
next
  case (Suc n)
  then have "pos < q" and "match_at text pos = None" by auto
  moreover have "finditer text (pos + 1) = finditer text q"
    using Suc by (intro Suc.hyps(1)) auto
  ultimately show ?case using Suc.prems(3) by (subst finditer.simps) simp
qed

lemma finditer_no_match:
  assumes "\<forall>p. pos \<le> p \<and> p < length text \<longrightarrow> match_at text p = None"
  shows "finditer text pos = []"
proof (cases "pos \<le> length text")
  case True
  with assms have "finditer text pos = finditer text (length text)"
    by (intro finditer_skip) auto
  then show ?thesis by (simp add: finditer.simps [of _ "length text"])
next
  case False
  then show ?thesis by (subst finditer.simps) simp
qed

lemma lazy_dot_plus_exact:
  assumes "inner \<noteq> []" and "CHR 0x0A \<notin> set inner"
    and "\<forall>k. 1 \<le> k \<and> k < length inner \<longrightarrow> \<not> prefix d (drop k (inner @ d @ post))"
  shows "lazy_dot_plus d (inner @ d @ post) = Some inner"
  using assms
proof (induction inner)
  case Nil
  then show ?case by simp
next
  case (Cons c cs)
  show ?case
  proof (cases "cs = []")
    case True
    with Cons.prems show ?thesis by simp
  next
    case False
    from Cons.prems(3) False have "\<not> prefix d (drop 1 ((c # cs) @ d @ post))"
      by (intro Cons.prems(3) [rule_format]) auto
    then have np: "\<not> prefix d (cs @ d @ post)" by simp
    have "\<forall>k. 1 \<le> k \<and> k < length cs \<longrightarrow> \<not> prefix d (drop k (cs @ d @ post))"
    proof (intro allI impI)
      fix k assume "1 \<le> k \<and> k < length cs"
      then have "\<not> prefix d (drop (Suc k) ((c # cs) @ d @ post))"
        by (intro Cons.prems(3) [rule_format]) auto
      then show "\<not> prefix d (drop k (cs @ d @ post))" by simp
    qed
    with False Cons.prems(2) have "lazy_dot_plus d (cs @ d @ post) = Some cs"
      by (intro Cons.IH) auto
    with np Cons.prems(2) show ?thesis by auto
  qed
qed

lemma early_close_indep:
  assumes "k < length inner"
  shows "prefix ''**'' (drop k (inner @ ''**'' @ post)) = prefix ''**'' (drop k (inner @ ''**''))"
proof -
  from assms obtain x xs where d: "drop k inner = x # xs"
    by (cases "drop k inner") auto
  from assms have "drop k (inner @ ''**'' @ post) = drop k inner @ ''**'' @ post"
    and "drop k (inner @ ''**'') = drop k inner @ ''**''" by simp_all
  with d show ?thesis by (cases xs) auto
qed


section \<open>Facts about the block parser\<close>

lemma code_loop_eq:
  "code_loop lines i code_lines =
     Inr (i + length (takeWhile (\<lambda>l. \<not> is_fence l) (drop i lines)),
          code_lines @ takeWhile (\<lambda>l. \<not> is_fence l) (drop i lines))"
proof (induction lines i code_lines rule: code_loop.induct)
  case (1 lines i code_lines)
  show ?case
  proof (cases "i < length lines")
    case False
    then show ?thesis by (subst code_loop.simps) simp
  next
    case True
    then have d: "drop i lines = lines ! i # drop (Suc i) lines"
      by (simp add: Cons_nth_drop_Suc)
    show ?thesis
    proof (cases "is_fence (lines ! i)")
      case True
      with \<open>i < length lines\<close> d show ?thesis
        by (subst code_loop.simps) (simp add: py_index_def is_fence_def)
    next
      case False
      with \<open>i < length lines\<close> have "code_loop lines (i + 1) (code_lines @ [lines ! i]) =
        Inr (i + 1 + length (takeWhile (\<lambda>l. \<not> is_fence l) (drop (i + 1) lines)),
          (code_lines @ [lines ! i]) @ takeWhile (\<lambda>l. \<not> is_fence l) (drop (i + 1) lines))"
        by (intro "1.IH") (auto simp: py_index_def is_fence_def)
      with False \<open>i < length lines\<close> d show ?thesis
        by (subst code_loop.simps) (simp add: py_index_def is_fence_def)
    qed
  qed
qed

lemma parse_inline_markdown_nonempty: "parse_inline_markdown s \<noteq> []"
  by (auto simp: parse_inline_markdown_def Let_def split: prod.splits)


lemma block_step_blank:
  assumes "i < length lines" and "strip (lines ! i) = []"
  shows "block_step lines i blocks = Inr (i + 1, blocks)"
  using assms by (simp add: block_step_def py_index_def)

lemma block_step_heading_3:
  assumes "i < length lines" and "stripped = strip (lines ! i)" and "startswith stripped ''### ''"
  shows "block_step lines i blocks =
           Inr (i + 1, blocks @ [Heading_3 [plain (strip (drop 4 stripped))]])"
proof -
  from assms(3) have "stripped \<noteq> []" by (auto simp: startswith_def)
  with assms show ?thesis by (simp add: block_step_def py_index_def Let_def)
qed

lemma block_step_heading_2:
  assumes "i < length lines" and "stripped = strip (lines ! i)" and "startswith stripped ''## ''"
  shows "block_step lines i blocks =
           Inr (i + 1, blocks @ [Heading_2 [plain (strip (drop 3 stripped))]])"
proof -
  from assms(3) have "stripped \<noteq> []" and "\<not> startswith stripped ''### ''"
    by (auto simp: startswith_def prefix_def)
  with assms show ?thesis by (simp add: block_step_def py_index_def Let_def)
qed

lemma block_step_heading_1:
  assumes "i < length lines" and "stripped = strip (lines ! i)" and "startswith stripped ''# ''"
  shows "block_step lines i blocks =
           Inr (i + 1, blocks @ [Heading_1 [plain (strip (drop 2 stripped))]])"
proof -
  from assms(3) have "stripped \<noteq> []" and "\<not> startswith stripped ''### ''"
    and "\<not> startswith stripped ''## ''"
    by (auto simp: startswith_def prefix_def)
  with assms show ?thesis by (simp add: block_step_def py_index_def Let_def)
qed

lemma block_step_bullet:
  assumes "i < length lines" and "stripped = strip (lines ! i)" and "startswith stripped ''- ''"
  shows "block_step lines i blocks =
           Inr (i + 1, blocks @ [Bulleted_list_item [plain (strip (drop 2 stripped))]])"
proof -
  from assms(3) have "stripped \<noteq> []" and "\<not> startswith stripped ''### ''"
    and "\<not> startswith stripped ''## ''" and "\<not> startswith stripped ''# ''"
    by (auto simp: startswith_def prefix_def)
  with assms show ?thesis by (simp add: block_step_def py_index_def Let_def)
qed

lemma sub_numbered_digit:
  assumes "sub_numbered s = Some rest"
  shows "\<exists>c cs. s = c # cs \<and> isdigit c"
proof (cases s)
  case Nil
  with assms show ?thesis by (simp add: sub_numbered_def)
next
  case (Cons c cs)
  with assms have "isdigit c"
    by (auto simp: sub_numbered_def split: list.splits if_splits)
  with Cons show ?thesis by simp
qed

lemma block_step_numbered:
  assumes "i < length lines" and "stripped = strip (lines ! i)"
    and "sub_numbered stripped = Some rest"
  shows "block_step lines i blocks =
           Inr (i + 1, blocks @ [Numbered_list_item [plain (strip rest)]])"
proof -
  from sub_numbered_digit [OF assms(3)] obtain c cs where "stripped = c # cs" and "isdigit c"
    by blast
  then have "stripped \<noteq> []" and "\<not> startswith stripped ''### ''"
    and "\<not> startswith stripped ''## ''" and "\<not> startswith stripped ''# ''"
    and "\<not> startswith stripped ''- ''"
    by (auto simp: startswith_def isdigit_def)
  with assms show ?thesis by (simp add: block_step_def py_index_def Let_def)
qed

lemma block_step_code:
  assumes "i < length lines" and "is_fence (lines ! i)"
  shows "block_step lines i blocks =
      Inr (Suc i + length (takeWhile (\<lambda>l. \<not> is_fence l) (drop (Suc i) lines)) + 1,
           blocks @ [Code [plain (join [CHR 0x0A]
              (takeWhile (\<lambda>l. \<not> is_fence l) (drop (Suc i) lines)))] ''text''])"
proof -
  define stripped where "stripped = strip (lines ! i)"
  with assms(2) have f: "startswith stripped ''```''" by (simp add: is_fence_def)
  then obtain cs where s: "stripped = CHR ''`'' # cs" by (auto simp: startswith_def prefix_def)
  then have "stripped \<noteq> []" and "\<not> startswith stripped ''### ''"
    and "\<not> startswith stripped ''## ''" and "\<not> startswith stripped ''# ''"
    and "\<not> startswith stripped ''- ''"
    by (auto simp: startswith_def)
  moreover from s have "sub_numbered stripped = None"
    by (simp add: sub_numbered_def isdigit_def split: list.splits)
  ultimately show ?thesis using assms(1) f
    by (simp add: block_step_def py_index_def Let_def code_loop_eq stripped_def)
qed

lemma block_step_paragraph:
  assumes "i < length lines" and "stripped = strip (lines ! i)" and "stripped \<noteq> []"
    and "\<not> startswith stripped ''### ''" and "\<not> startswith stripped ''## ''"
    and "\<not> startswith stripped ''# ''" and "\<not> startswith stripped ''- ''"
    and "sub_numbered stripped = None" and "\<not> startswith stripped ''```''"
  shows "block_step lines i blocks =
           Inr (i + 1, blocks @ [Paragraph (parse_inline_markdown stripped)])"
  using assms
  by (simp add: block_step_def py_index_def Let_def parse_inline_markdown_nonempty)

lemma block_step_shape:
  assumes "i < length lines"
  shows "\<exists>i' new. i < i' \<and> (\<forall>blocks. block_step lines i blocks = Inr (i', blocks @ new))"
proof -
  define s where "s = strip (lines ! i)"
  consider "s = []" | "startswith s ''### ''" | "startswith s ''## ''" | "startswith s ''# ''"
    | "startswith s ''- ''" | "sub_numbered s \<noteq> None" | "startswith s ''```''"
    | "s \<noteq> []" "\<not> startswith s ''### ''" "\<not> startswith s ''## ''" "\<not> startswith s ''# ''"
      "\<not> startswith s ''- ''" "sub_numbered s = None" "\<not> startswith s ''```''"
    by blast
  then show ?thesis
  proof cases
    case 1
    then have "\<forall>blocks. block_step lines i blocks = Inr (i + 1, blocks @ [])"
      using assms block_step_blank by (simp add: s_def)
    then show ?thesis by (intro exI [of _ "i + 1"] exI [of _ "[]"]) simp
  next
    case 2
    from block_step_heading_3 [OF assms s_def this] show ?thesis
      by (intro exI [of _ "i + 1"] exI conjI allI) auto
  next
    case 3
    from block_step_heading_2 [OF assms s_def this] show ?thesis
      by (intro exI [of _ "i + 1"] exI conjI allI) auto
  next
    case 4
    from block_step_heading_1 [OF assms s_def this] show ?thesis
      by (intro exI [of _ "i + 1"] exI conjI allI) auto
  next
    case 5
    from block_step_bullet [OF assms s_def this] show ?thesis
      by (intro exI [of _ "i + 1"] exI conjI allI) auto
  next
    case 6
    then obtain rest where "sub_numbered s = Some rest" by auto
    from block_step_numbered [OF assms s_def this] show ?thesis
      by (intro exI [of _ "i + 1"] exI conjI allI) auto
  next
    case 7
    then have "is_fence (lines ! i)" by (simp add: is_fence_def s_def)
    from block_step_code [OF assms this] show ?thesis
      by (intro exI conjI allI) auto
  next
    case 8
    from block_step_paragraph [OF assms s_def this] show ?thesis
      by (intro exI [of _ "i + 1"] exI conjI allI) auto
  qed
qed

lemma blocks_loop_shape:
  "\<exists>new. \<forall>blocks. blocks_loop lines i blocks = Some (Inr (blocks @ new))"
proof (induction "length lines - i" arbitrary: i rule: less_induct)
  case less
  show ?case
  proof (cases "i < length lines")
    case False
    then have "\<forall>blocks. blocks_loop lines i blocks = Some (Inr (blocks @ []))"
      by (subst blocks_loop.simps) simp
    then show ?thesis by blast
  next
    case True
    then obtain i' new where i': "i < i'"
      and step: "\<And>blocks. block_step lines i blocks = Inr (i', blocks @ new)"
      using block_step_shape by blast
    from i' True have "length lines - i' < length lines - i" by simp
    then obtain new' where rest: "\<And>blocks. blocks_loop lines i' blocks = Some (Inr (blocks @ new'))"
      using less by blast
    have "\<forall>blocks. blocks_loop lines i blocks = Some (Inr (blocks @ (new @ new')))"
      using True step rest by (subst blocks_loop.simps) simp
    then show ?thesis by blast
  qed
qed

lemma blocks_loop_step:
  assumes "i < length lines" and "block_step lines i blocks = Inr (i', blocks')"
  shows "blocks_loop lines i blocks = blocks_loop lines i' blocks'"
  using assms by (subst blocks_loop.simps) simp


lemma blocks_loop_emits:
  assumes "i < length lines" and "block_step lines i blocks = Inr (i', blocks @ new)"
  shows "\<exists>rest. blocks_loop lines i blocks = Some (Inr (blocks @ new @ rest))"
proof -
  obtain r where "\<And>b. blocks_loop lines i' b = Some (Inr (b @ r))"
    using blocks_loop_shape by blast
  then have "blocks_loop lines i' (blocks @ new) = Some (Inr ((blocks @ new) @ r))"
    by blast
  with blocks_loop_step [OF assms] show ?thesis by auto
qed

lemma emitsI:
  assumes "i < length lines" and "block_step lines i blocks = Inr (i + 1, blocks @ [b])"
  shows "emits lines i blocks b"
  using assms blocks_loop_emits [OF assms] by (simp add: emits_def)

lemma sub_numbered_intro:
  assumes "digits \<noteq> []" and "list_all isdigit digits" and "isspace c"
  shows "sub_numbered (digits @ CHR ''.'' # c # rest) = Some rest"
proof -
  have nd: "\<not> isdigit CHR ''.''" by (simp add: isdigit_def)
  from assms(2) have all: "\<forall>x\<in>set digits. isdigit x" by (simp add: list_all_iff)
  have "dropWhile isdigit (digits @ CHR ''.'' # c # rest) = CHR ''.'' # c # rest"
    using all nd by (simp add: dropWhile_append3)
  moreover have "takeWhile isdigit (digits @ CHR ''.'' # c # rest) = digits"
    using all nd by (simp add: takeWhile_tail)
  ultimately show ?thesis using assms(1,3) by (simp add: sub_numbered_def)
qed


section \<open>The chunker terminates\<close>

lemma chunk_step_shrinks:
  assumes "1 \<le> chunk_size" and "chunk_size < int (length content)"
  shows "length (snd (chunk_step chunk_size content)) < length content"
proof -
  define last_space where "last_space = rfind content CHR '' '' chunk_size"
  define chunk_end where "chunk_end = (if last_space > 0 then last_space else chunk_size)"
  have "last_space < max 1 chunk_size"
    unfolding last_space_def using assms(1) by (intro rfind_lt_bound) simp
  then have pos: "1 \<le> chunk_end" and le: "chunk_end \<le> chunk_size"
    using assms(1) by (auto simp: chunk_end_def)
  have "length (slice_from content chunk_end) < length content"
    using pos le assms(2) by (simp add: slice_from_def py_bound_def)
  moreover have "length (strip (slice_from content chunk_end)) \<le> length (slice_from content chunk_end)"
    by (rule length_strip_le)
  moreover have "snd (chunk_step chunk_size content) = strip (slice_from content chunk_end)"
    by (simp add: chunk_step_def Let_def last_space_def chunk_end_def)
  ultimately show ?thesis by simp
qed

lemma chunk_loop_returns:
  assumes "1 \<le> chunk_size"
  shows "\<exists>r. chunk_loop chunk_size content chunks = Some r"
proof (induction "length content" arbitrary: content chunks rule: less_induct)
  case less
  show ?case
  proof (cases "length content > 0 \<and> \<not> int (length content) \<le> chunk_size")
    case False
    then show ?thesis by (subst chunk_loop.simps) auto
  next
    case True
    obtain chunk content' where step: "chunk_step chunk_size content = (chunk, content')"
      by (cases "chunk_step chunk_size content")
    have "length (snd (chunk_step chunk_size content)) < length content"
      using assms True by (intro chunk_step_shrinks) auto
    with step have "length content' < length content" by simp
    then obtain r where "chunk_loop chunk_size content' (chunks @ [chunk]) = Some r"
      using less by blast
    with True step show ?thesis by (subst chunk_loop.simps) simp
  qed
qed

text \<open>
  C7. For a chunk size of at least 1 the chunker returns for every string, and each
  pass of the loop over content longer than the chunk size leaves strictly shorter
  content.
\<close>

theorem chunk_content_terminates:
  assumes "1 \<le> chunk_size"
  shows "(\<exists>chunks. chunk_content content chunk_size = Some chunks) \<and>
         (\<forall>c. chunk_size < int (length c) \<longrightarrow>
              length (snd (chunk_step chunk_size c)) < length c)"
  using assms chunk_loop_returns [of chunk_size content "[]"] chunk_step_shrinks
  by (simp add: chunk_content_def)

theorem chunk_content_terminates_witness:
  "(1::int) \<le> 3 \<and> chunk_content ''ab cd ef'' 3 = Some [''ab'', ''cd'', ''ef''] \<and>
   length (snd (chunk_step 3 ''ab cd ef'')) < length ''ab cd ef''"
  using chunk_content_terminates [of 3 "''ab cd ef''"]
  by (simp add: chunk_content_def chunk_loop.simps chunk_step_def rfind_def slice_to_def
      slice_from_def py_bound_def strip_def isspace_def Let_def)

section \<open>Headings\<close>




section \<open>List items\<close>

text \<open>
  C1, as the claim states it, fails: the run of a list item is the literal text after the
  marker, and the inline parser would have made a bold run of it.
\<close>

theorem list_item_inline_counterexample:
  "markdown_to_notion_blocks ''- **x**'' = Some (Inr [Bulleted_list_item [plain ''**x**'']]) \<and>
   markdown_to_notion_blocks ''1. **x**'' = Some (Inr [Numbered_list_item [plain ''**x**'']]) \<and>
   parse_inline_markdown ''**x**'' = [styled ''x'' Bold] \<and>
   [plain ''**x**''] \<noteq> [styled ''x'' Bold]"
  by code_simp

text \<open>
  C1, amended. When the loop is at a line whose stripped form starts with \<open>- \<close>, it
  emits a bulleted list item whose only run is plain and holds the rest after the marker,
  stripped. When the stripped form is one or more digits, a dot, one whitespace character
  and a rest, it emits a numbered list item whose only run is plain and holds the rest,
  stripped. The inline parser is applied to neither.
\<close>

theorem list_item_lines:
  assumes "i < length lines" and "stripped = strip (lines ! i)"
  shows "(startswith stripped ''- '' \<longrightarrow>
            emits lines i blocks (Bulleted_list_item [plain (strip (drop 2 stripped))])) \<and>
         (digits \<noteq> [] \<and> list_all isdigit digits \<and> isspace c \<and>
          stripped = digits @ CHR ''.'' # c # rest \<longrightarrow>
            emits lines i blocks (Numbered_list_item [plain (strip rest)]))"
proof (intro conjI impI)
  assume "startswith stripped ''- ''"
  then show "emits lines i blocks (Bulleted_list_item [plain (strip (drop 2 stripped))])"
    using assms by (intro emitsI block_step_bullet)
next
  assume h: "digits \<noteq> [] \<and> list_all isdigit digits \<and> isspace c \<and>
          stripped = digits @ CHR ''.'' # c # rest"
  then have "sub_numbered stripped = Some rest" by (simp add: sub_numbered_intro)
  then show "emits lines i blocks (Numbered_list_item [plain (strip rest)])"
    using assms by (intro emitsI block_step_numbered)
qed

theorem list_item_lines_witness:
  "emits ['' - **x** '', ''12. _y_''] 0 [] (Bulleted_list_item [plain ''**x**'']) \<and>
   emits ['' - **x** '', ''12. _y_''] 1 [] (Numbered_list_item [plain ''_y_''])"
  using list_item_lines [of 0 "['' - **x** '', ''12. _y_'']" "''- **x**''" "[]" "''1''" "CHR '' ''" "[]"]
    list_item_lines [of 1 "['' - **x** '', ''12. _y_'']" "''12. _y_''" "[]" "''12''" "CHR '' ''" "''_y_''"]
  by (simp add: strip_def isspace_def isdigit_def startswith_def)


section \<open>The block parser never raises\<close>




section \<open>Code fences\<close>

text \<open>
  C4. When the loop is at a fence line, it emits exactly one code block. Its content is
  the lines after the fence up to, not including, the next fence line, joined by line
  feeds and otherwise unchanged (splitting the content at line feeds gives the lines
  back). The loop goes on after that next fence line, which is dropped. If no later line
  is a fence line, the code block holds all the remaining lines and is the last block.
\<close>

theorem code_fence_block:
  assumes "lines = split_nl markdown_text" and "i < length lines" and "is_fence (lines ! i)"
    and "body = takeWhile (\<lambda>l. \<not> is_fence l) (drop (Suc i) lines)"
  shows "block_step lines i blocks =
           Inr (Suc i + length body + 1,
                blocks @ [Code [plain (join [CHR 0x0A] body)] ''text'']) \<and>
         (\<exists>rest. blocks_loop lines i blocks =
            Some (Inr (blocks @ Code [plain (join [CHR 0x0A] body)] ''text'' # rest))) \<and>
         (body \<noteq> [] \<longrightarrow> split_nl (join [CHR 0x0A] body) = body) \<and>
         (Suc i + length body < length lines \<longrightarrow>
            is_fence (lines ! (Suc i + length body))) \<and>
         ((\<forall>l\<in>set (drop (Suc i) lines). \<not> is_fence l) \<longrightarrow>
            body = drop (Suc i) lines \<and>
            blocks_loop lines i blocks =
              Some (Inr (blocks @ [Code [plain (join [CHR 0x0A] (drop (Suc i) lines))] ''text''])))"
proof (intro conjI impI)
  show step: "block_step lines i blocks =
           Inr (Suc i + length body + 1,
                blocks @ [Code [plain (join [CHR 0x0A] body)] ''text''])"
    using block_step_code [OF assms(2,3)] assms(4) by simp
  from blocks_loop_emits [OF assms(2) step]
  show "\<exists>rest. blocks_loop lines i blocks =
            Some (Inr (blocks @ Code [plain (join [CHR 0x0A] body)] ''text'' # rest))"
    by simp
  {
    assume all: "\<forall>l\<in>set (drop (Suc i) lines). \<not> is_fence l"
    then show b: "body = drop (Suc i) lines"
      using assms(4) by (simp add: takeWhile_eq_all_conv)
    have "blocks_loop lines i blocks =
        blocks_loop lines (Suc i + length body + 1) (blocks @ [Code [plain (join [CHR 0x0A] body)] ''text''])"
      using assms(2) step by (rule blocks_loop_step)
    also have "\<dots> = Some (Inr (blocks @ [Code [plain (join [CHR 0x0A] body)] ''text'']))"
    proof -
      have "\<not> Suc i + length body + 1 < length lines"
        using assms(2) by (simp add: b)
      then show ?thesis by (subst blocks_loop.simps) (simp only: if_False)
    qed
    finally show "blocks_loop lines i blocks =
        Some (Inr (blocks @ [Code [plain (join [CHR 0x0A] (drop (Suc i) lines))] ''text'']))"
      using b by simp
  }
next
  assume "body \<noteq> []"
  moreover have "\<forall>l\<in>set body. CHR 0x0A \<notin> set l"
  proof
    fix l assume "l \<in> set body"
    then have "l \<in> set lines"
      using assms(4) by (auto dest: set_takeWhileD in_set_dropD)
    then show "CHR 0x0A \<notin> set l" using assms(1) split_nl_no_nl by blast
  qed
  ultimately show "split_nl (join [CHR 0x0A] body) = body" by (rule split_nl_join)
next
  assume lt: "Suc i + length body < length lines"
  let ?r = "drop (Suc i) lines"
  from lt have "length body < length ?r" by simp
  then have "\<not> (\<lambda>l. \<not> is_fence l) (?r ! length body)"
    unfolding assms(4) by (rule nth_length_takeWhile)
  moreover from lt have "?r ! length body = lines ! (Suc i + length body)" by simp
  ultimately show "is_fence (lines ! (Suc i + length body))" by simp
qed

theorem code_fence_block_witness:
  "block_step [''a'', '' ```py'', ''  x  '', '''', ''y'', ''``` '', ''z''] 1 [] =
     Inr (6, [Code [plain (''  x  '' @ [CHR 0x0A, CHR 0x0A] @ ''y'')] ''text'']) \<and>
   split_nl (join [CHR 0x0A] [''  x  '', '''', ''y'']) = [''  x  '', '''', ''y''] \<and>
   is_fence ([''a'', '' ```py'', ''  x  '', '''', ''y'', ''``` '', ''z''] ! 5) \<and>
   markdown_to_notion_blocks (''```'' @ [CHR 0x0A] @ ''line1'' @ [CHR 0x0A] @ ''line2'') =
     Some (Inr [Code [plain (''line1'' @ [CHR 0x0A] @ ''line2'')] ''text''])"
  using code_fence_block [of "[''a'', '' ```py'', ''  x  '', '''', ''y'', ''``` '', ''z'']"
      "''a'' @ [CHR 0x0A] @ '' ```py'' @ [CHR 0x0A] @ ''  x  '' @ [CHR 0x0A, CHR 0x0A] @ ''y''
         @ [CHR 0x0A] @ ''``` '' @ [CHR 0x0A] @ ''z''" 1 "[''  x  '', '''', ''y'']" "[]"]
    code_fence_block [of "[''```'', ''line1'', ''line2'']"
      "''```'' @ [CHR 0x0A] @ ''line1'' @ [CHR 0x0A] @ ''line2''" 0 "[''line1'', ''line2'']" "[]"]
  by (simp add: is_fence_def strip_def isspace_def startswith_def markdown_to_notion_blocks_def)


section \<open>Title extraction\<close>

text \<open>
  The title of the first line that starts with \<open>#\<close> when stripped; the result is
  \<open>None\<close> exactly when there is no such line.
\<close>

lemma extract_title_flush:
  "extract_title_from_markdown (''intro'' @ [CHR 0x0A] @ ''## My Doc'') = Some ''My Doc''"
  by code_simp

lemma title_loop_None_iff:
  "title_loop lines = None \<longleftrightarrow> (\<forall>l\<in>set lines. \<not> startswith (strip l) ''#'')"
  by (induction lines) auto

lemma extract_title_None_iff:
  "extract_title_from_markdown text = None \<longleftrightarrow>
     (\<forall>l\<in>set (split_nl text). \<not> startswith (strip l) ''#'')"
  by (simp add: extract_title_from_markdown_def title_loop_None_iff)

text \<open>
  C2 fails on an indented heading line: the line is recognised on its stripped form, but
  the \<open>#\<close> run is removed from the line as it is, where it is not at the start. The
  \<open>#\<close> stays in the title.
\<close>

theorem extract_title_indented:
  "extract_title_from_markdown ''  # Title'' = Some ''# Title''"
  by code_simp

section \<open>Lines without inline formatting\<close>

text \<open>
  C8. If the pattern matches at no position of the line, the inline parser returns one
  plain run that holds the whole line. Its result is never the empty list: for the empty
  string it is one plain run with empty content.
\<close>

theorem plain_line_single_run:
  "((\<forall>pos<length text. match_at text pos = None) \<longrightarrow>
      parse_inline_markdown text = [plain text]) \<and>
   parse_inline_markdown text \<noteq> [] \<and>
   parse_inline_markdown [] = [plain []]"
proof (intro conjI impI)
  assume "\<forall>pos<length text. match_at text pos = None"
  then have "finditer text 0 = []" by (intro finditer_no_match) simp
  then show "parse_inline_markdown text = [plain text]"
    by (simp add: parse_inline_markdown_def)
next
  show "parse_inline_markdown text \<noteq> []" by (rule parse_inline_markdown_nonempty)
next
  show "parse_inline_markdown [] = [plain []]"
    by (simp add: parse_inline_markdown_def finditer.simps)
qed

theorem plain_line_single_run_witness:
  "parse_inline_markdown ''hello'' = [plain ''hello''] \<and>
   parse_inline_markdown ''2 * 3'' = [plain ''2 * 3'']"
proof -
  have "\<forall>pos<length ''hello''. match_at ''hello'' pos = None"
    by (intro allI impI match_at_plain_char) (auto simp: nth_Cons split: nat.splits)
  moreover have "\<forall>pos<length ''2 * 3''. match_at ''2 * 3'' pos = None"
  proof (intro allI impI)
    fix pos assume "pos < length ''2 * 3''"
    then consider "pos = 0" | "pos = 1" | "pos = 2" | "pos = 3" | "pos = 4" by fastforce
    then show "match_at ''2 * 3'' pos = None"
      by cases (simp_all add: match_at_def alt_def)
  qed
  ultimately show ?thesis
    using plain_line_single_run [of "''hello''"] plain_line_single_run [of "''2 * 3''"]
    by blast
qed


section \<open>One bold span\<close>

text \<open>
  C6, as the claim states it, fails: a line may contain a balanced bold span and other
  delimiters around it, and the leftmost match decides. Here the two underscores make
  one italic run that swallows the bold span, and no run is bold.
\<close>

theorem bold_span_counterexample:
  "parse_inline_markdown ''a_b **c** d_e'' =
     [plain ''a'', styled ''b **c** d'' Italic, plain ''e''] \<and>
   parse_inline_markdown ''a_b **c** d_e'' \<noteq> [plain ''a_b '', styled ''c'' Bold, plain '' d_e'']"
  by code_simp

text \<open>
  C6, amended. Take a line made of a text \<open>pre\<close>, \<open>**\<close>, a text \<open>inner\<close>, \<open>**\<close>
  and a text \<open>post\<close>, where \<open>inner\<close> is not empty, has no line feed, and no \<open>**\<close>
  closes the span before its end; and let the pattern match at no position before the
  opening \<open>**\<close> and at none from the end of the closing \<open>**\<close> on. Then the inline
  parser returns a plain run for \<open>pre\<close> if it is not empty, one bold run for
  \<open>inner\<close>, and a plain run for \<open>post\<close> if it is not empty, in this order.
\<close>

theorem bold_span:
  assumes "text = pre @ ''**'' @ inner @ ''**'' @ post"
    and "\<forall>p. p < length pre \<longrightarrow> match_at text p = None"
    and "\<forall>p. length pre + length inner + 4 \<le> p \<and> p < length text \<longrightarrow> match_at text p = None"
    and "inner \<noteq> []" and "CHR 0x0A \<notin> set inner"
    and "\<forall>k. 1 \<le> k \<and> k < length inner \<longrightarrow> \<not> prefix ''**'' (drop k (inner @ ''**''))"
  shows "parse_inline_markdown text =
           (if pre = [] then [] else [plain pre]) @ [styled inner Bold] @
           (if post = [] then [] else [plain post])"
proof -
  define e where "e = length pre + 2 + length inner + 2"
  have split: "text = (pre @ ''**'' @ inner @ ''**'') @ post"
    and lsplit: "length (pre @ ''**'' @ inner @ ''**'') = e"
    by (simp_all add: assms(1) e_def)
  have len: "length text = e + length post" by (simp add: assms(1) e_def)
  have "\<forall>k. 1 \<le> k \<and> k < length inner \<longrightarrow> \<not> prefix ''**'' (drop k (inner @ ''**'' @ post))"
    using assms(6) early_close_indep by blast
  then have "lazy_dot_plus ''**'' (inner @ ''**'' @ post) = Some inner"
    using assms(4,5) by (intro lazy_dot_plus_exact) auto
  then have a: "alt ''**'' (drop (length pre) text) = Some inner"
    by (simp add: alt_def assms(1))
  define m where "m = mk_match (length pre) 1 2 inner"
  have m: "match_at text (length pre) = Some m"
    using a by (simp add: match_at_def m_def)
  have me: "m_end m = e" and ms: "m_start m = length pre"
    by (simp_all add: m_def mk_match_def e_def)
  have fm: "formatted m = [styled inner Bold]"
    using assms(4) by (simp add: formatted_def m_def mk_match_def truthy_def)
  have "finditer text 0 = finditer text (length pre)"
    using assms(2) by (intro finditer_skip) (auto simp: len e_def)
  also have "\<dots> = m # finditer text e"
    using m me by (subst finditer.simps) (simp add: len e_def)
  also have "finditer text e = []"
    using assms(3) by (intro finditer_no_match) (simp add: e_def)
  finally have f: "finditer text 0 = [m]" .
  have tk: "take (length pre) text = pre" by (simp add: assms(1))
  have dr: "drop e text = post" using split lsplit by (metis append_eq_conv_conj)
  show ?thesis
    by (simp add: parse_inline_markdown_def f fm me ms tk dr len Let_def)
qed

theorem bold_span_witness:
  "parse_inline_markdown ''a **b** c'' = [plain ''a '', styled ''b'' Bold, plain '' c''] \<and>
   parse_inline_markdown ''**x*y_z**!'' = [styled ''x*y_z'' Bold, plain ''!'']"
proof -
  have 1: "\<forall>p. p < length ''a '' \<longrightarrow> match_at ''a **b** c'' p = None"
    using match_at_plain_chars [of "''a ''" "''a **b** c''" "[]" "''**b** c''"] by simp
  have 2: "\<forall>p. length ''a '' + length ''b'' + 4 \<le> p \<and> p < length ''a **b** c''
      \<longrightarrow> match_at ''a **b** c'' p = None"
    using match_at_plain_chars [of "'' c''" "''a **b** c''" "''a **b**''" "[]"] by simp
  have 3: "\<forall>k. 1 \<le> k \<and> k < length ''b'' \<longrightarrow> \<not> prefix ''**'' (drop k (''b'' @ ''**''))"
    by simp
  have 4: "\<forall>k. 1 \<le> k \<and> k < length ''x*y_z'' \<longrightarrow> \<not> prefix ''**'' (drop k (''x*y_z'' @ ''**''))"
  proof (intro allI impI)
    fix k :: nat assume "1 \<le> k \<and> k < length ''x*y_z''"
    then consider "k = 1" | "k = 2" | "k = 3" | "k = 4" by fastforce
    then show "\<not> prefix ''**'' (drop k (''x*y_z'' @ ''**''))" by cases simp_all
  qed
  have 5: "\<forall>p. length ([] :: string) + length ''x*y_z'' + 4 \<le> p \<and> p < length ''**x*y_z**!''
      \<longrightarrow> match_at ''**x*y_z**!'' p = None"
    using match_at_plain_chars [of "''!''" "''**x*y_z**!''" "''**x*y_z**''" "[]"] by simp
  have "parse_inline_markdown ''a **b** c'' = [plain ''a '', styled ''b'' Bold, plain '' c'']"
    using bold_span [of "''a **b** c''" "''a ''" "''b''" "'' c''", OF _ 1 2 _ _ 3] by simp
  moreover have "parse_inline_markdown ''**x*y_z**!'' = [styled ''x*y_z'' Bold, plain ''!'']"
    using bold_span [of "''**x*y_z**!''" "[]" "''x*y_z''" "''!''", OF _ _ 5 _ _ 4] by simp
  ultimately show ?thesis by simp
qed

section \<open>Sections that are absent or empty\<close>






section \<open>The chunks and the words of the input\<close>

lemma chunk_step_cut:
  assumes "1 \<le> M" and "M < int (length content)"
  shows "\<exists>k. 0 < k \<and> k \<le> nat M \<and>
           chunk_step M content = (strip (take k content), strip (drop k content)) \<and>
           (content ! k = CHR '' '' \<or>
            (k = nat M \<and> CHR '' '' \<notin> set (tl (take (nat M) content))))"
proof -
  define r where "r = rindex CHR '' '' (take (nat M) content)"
  have b: "py_bound M (length content) = nat M"
    using assms by (simp add: py_bound_def)
  have rf: "rfind content CHR '' '' M = r"
    by (simp add: rfind_def slice_to_def b r_def)
  show ?thesis
  proof (cases "0 < r")
    case True
    then have "0 \<le> rindex CHR '' '' (take (nat M) content)" by (simp add: r_def)
    from rindex_hit [OF this]
    have lt: "nat r < length (take (nat M) content)"
      and at: "take (nat M) content ! nat r = CHR '' ''" by (simp_all add: r_def)
    from lt have lt': "nat r < nat M" by simp
    with at have "content ! nat r = CHR '' ''" by simp
    moreover have "py_bound r (length content) = nat r"
      using True lt' assms by (simp add: py_bound_def)
    then have "chunk_step M content =
        (strip (take (nat r) content), strip (drop (nat r) content))"
      using True by (simp add: chunk_step_def rf slice_to_def slice_from_def)
    moreover have "0 < nat r" using True by simp
    moreover have "nat r \<le> nat M" using lt' by arith
    ultimately show ?thesis by blast
  next
    case False
    then have "rindex CHR '' '' (take (nat M) content) \<le> 0" by (simp add: r_def)
    then have "CHR '' '' \<notin> set (tl (take (nat M) content))" by (rule rindex_le0)
    moreover have "chunk_step M content =
        (strip (take (nat M) content), strip (drop (nat M) content))"
      using False by (simp add: chunk_step_def rf slice_to_def slice_from_def b)
    moreover have "0 < nat M" using assms(1) by simp
    ultimately show ?thesis by blast
  qed
qed

lemma chunk_step_words:
  assumes "1 \<le> M" and "M < int (length content)"
    and "only_spaces content" and "no_lead content" and "words_fit M content"
    and "chunk_step M content = (chunk, rest)"
  shows "words_of content = words_of chunk @ words_of rest"
proof -
  from chunk_step_cut [OF assms(1,2)] assms(6) obtain k where k: "0 < k" "k \<le> nat M"
    and ch: "chunk = strip (take k content)" and re: "rest = strip (drop k content)"
    and alt: "content ! k = CHR '' '' \<or>
            (k = nat M \<and> CHR '' '' \<notin> set (tl (take (nat M) content)))"
    by auto
  have klt: "k < length content" using k assms(2) by simp
  have sp: "isspace CHR '' ''" by (simp add: isspace_def)
  have space_case: "words_of content = words_of chunk @ words_of rest"
    if "isspace (content ! k)"
  proof -
    have "content = take k content @ content ! k # drop (Suc k) content"
      using klt by (simp add: id_take_nth_drop [symmetric])
    then have "words_of content = words_of (take k content) @ words_of (drop (Suc k) content)"
      using that by (metis words_of_space)
    moreover have "drop k content = content ! k # drop (Suc k) content"
      using klt by (simp add: Cons_nth_drop_Suc)
    then have "words_of (drop k content) = words_of (drop (Suc k) content)"
      using that by (simp add: words_of_lead)
    ultimately show ?thesis by (simp add: ch re words_of_strip)
  qed
  from alt show ?thesis
  proof
    assume "content ! k = CHR '' ''"
    with sp show ?thesis by (intro space_case) simp
  next
    assume h: "k = nat M \<and> CHR '' '' \<notin> set (tl (take (nat M) content))"
    define w where "w = take k content"
    have wlen: "length w = k" using klt by (simp add: w_def)
    then have wne: "w \<noteq> []" using k by auto
    have hdw: "hd w = hd content" using k by (simp add: w_def hd_take)
    have "content \<noteq> []" using klt by auto
    with assms(4) have "\<not> isspace (hd content)" by (simp add: no_lead_def)
    with hdw have h0: "\<not> isspace (hd w)" by simp
    have "set w \<subseteq> set content" by (simp add: w_def set_take_subset)
    with assms(3) have os: "\<forall>c\<in>set w. isspace c \<longrightarrow> c = CHR '' ''"
      by (auto simp: only_spaces_def)
    have nows: "\<forall>c\<in>set w. \<not> isspace c"
    proof
      fix c assume c: "c \<in> set w"
      from wne have "w = hd w # tl w" by simp
      with c have "c = hd w \<or> c \<in> set (tl w)" by (metis set_ConsD)
      then show "\<not> isspace c"
      proof
        assume "c = hd w"
        with h0 show ?thesis by simp
      next
        assume "c \<in> set (tl w)"
        with h have "c \<noteq> CHR '' ''" by (auto simp: w_def)
        with os c show ?thesis by auto
      qed
    qed
    define s where "s = drop k content"
    have cs: "content = w @ s" by (simp add: w_def s_def)
    have sne: "s \<noteq> []" using klt by (simp add: s_def)
    have "split_ws content = (w @ hd (split_ws s)) # tl (split_ws s)"
      unfolding cs using nows by (rule split_ws_word)
    then have "w @ hd (split_ws s) \<in> set (words_of content)"
      using wne by (simp add: words_of_def)
    with assms(5) have "int (length (w @ hd (split_ws s))) \<le> M"
      unfolding words_fit_def by blast
    moreover have "int (length w) = M" using wlen h assms(1) by simp
    ultimately have "hd (split_ws s) = []" by simp
    moreover from sne obtain x xs where sx: "s = x # xs" by (cases s) auto
    ultimately have "isspace x"
      using split_ws_nonempty [of xs] by (cases "isspace x") (auto split: list.splits)
    moreover have "content ! k = x" using sx klt by (simp add: s_def hd_drop_conv_nth [symmetric])
    ultimately show ?thesis by (intro space_case) simp
  qed
qed

lemma chunk_step_keeps:
  assumes "1 \<le> M" and "M < int (length content)"
    and "only_spaces content" and "no_lead content" and "words_fit M content"
    and "chunk_step M content = (chunk, rest)"
  shows "only_spaces rest \<and> no_lead rest \<and> words_fit M rest"
proof -
  from chunk_step_cut [OF assms(1,2)] assms(6) obtain k
    where re: "rest = strip (drop k content)" by auto
  have "set rest \<subseteq> set (drop k content)" unfolding re by (rule set_strip)
  also have "\<dots> \<subseteq> set content" by (rule set_drop_subset)
  finally have "only_spaces rest" using assms(3) by (auto simp: only_spaces_def)
  moreover have "no_lead rest" unfolding re no_lead_def by (rule strip_no_lead)
  moreover have "words_of content = words_of chunk @ words_of rest"
    using assms by (rule chunk_step_words)
  then have "words_fit M rest" using assms(5) by (simp add: words_fit_def)
  ultimately show ?thesis by simp
qed

lemma chunk_step_bound:
  assumes "1 \<le> M" and "M < int (length content)"
    and "chunk_step M content = (chunk, rest)"
  shows "int (length chunk) \<le> M"
proof -
  from chunk_step_cut [OF assms(1,2)] assms(3) obtain k where k: "k \<le> nat M"
    and ch: "chunk = strip (take k content)" by auto
  have "length chunk \<le> length (take k content)" unfolding ch by (rule length_strip_le)
  also have "\<dots> \<le> k" by simp
  finally have "length chunk \<le> k" .
  with k assms(1) show ?thesis by arith
qed

lemma chunk_loop_result:
  assumes "1 \<le> M"
  shows "\<exists>cs. chunk_loop M content chunks = Some (chunks @ cs) \<and>
           (\<forall>c\<in>set cs. int (length c) \<le> M) \<and>
           (only_spaces content \<and> no_lead content \<and> words_fit M content \<longrightarrow>
              concat (map words_of cs) = words_of content)"
proof (induction "length content" arbitrary: content chunks rule: less_induct)
  case less
  consider "content = []" | "content \<noteq> []" "int (length content) \<le> M"
    | "M < int (length content)" by fastforce
  then show ?case
  proof cases
    case 1
    then have "chunk_loop M content chunks = Some (chunks @ [])"
      by (subst chunk_loop.simps) simp
    with 1 show ?thesis by (intro exI [of _ "[]"]) (simp add: words_of_Nil)
  next
    case 2
    then have "chunk_loop M content chunks = Some (chunks @ [content])"
      by (subst chunk_loop.simps) simp
    with 2 show ?thesis by (intro exI [of _ "[content]"]) simp
  next
    case 3
    obtain chunk rest where step: "chunk_step M content = (chunk, rest)"
      by (cases "chunk_step M content")
    have "length (snd (chunk_step M content)) < length content"
      using assms 3 by (rule chunk_step_shrinks)
    with step have "length rest < length content" by simp
    from less [OF this, of "chunks @ [chunk]"] obtain cs
      where run: "chunk_loop M rest (chunks @ [chunk]) = Some ((chunks @ [chunk]) @ cs)"
        and bound: "\<forall>c\<in>set cs. int (length c) \<le> M"
        and words: "only_spaces rest \<and> no_lead rest \<and> words_fit M rest \<longrightarrow>
              concat (map words_of cs) = words_of rest"
      by blast
    have "content \<noteq> []" using 3 assms by auto
    then have "chunk_loop M content chunks = Some (chunks @ chunk # cs)"
      using 3 step run by (subst chunk_loop.simps) simp
    moreover have "\<forall>c\<in>set (chunk # cs). int (length c) \<le> M"
      using bound chunk_step_bound [OF assms 3 step] by simp
    moreover have "concat (map words_of (chunk # cs)) = words_of content"
      if ok: "only_spaces content \<and> no_lead content \<and> words_fit M content"
    proof -
      from ok have "only_spaces rest \<and> no_lead rest \<and> words_fit M rest"
        using chunk_step_keeps [OF assms 3 _ _ _ step] by blast
      with words have "concat (map words_of cs) = words_of rest" by blast
      moreover from ok have "words_of content = words_of chunk @ words_of rest"
        using chunk_step_words [OF assms 3 _ _ _ step] by blast
      ultimately show ?thesis by simp
    qed
    ultimately show ?thesis by blast
  qed
qed

text \<open>
  C3, as the claim states it, fails. The chunker cuts at spaces only, so with a tab
  between two words it cuts inside a word that is shorter than the chunk size; and a
  word longer than the chunk size is cut in pieces.
\<close>

theorem chunk_content_words_counterexample:
  "chunk_content (''abc'' @ [CHR 0x09] @ ''def gh'') 5 =
     Some [''abc'' @ [CHR 0x09] @ ''d'', ''ef gh''] \<and>
   words_of (join '' '' [''abc'' @ [CHR 0x09] @ ''d'', ''ef gh'']) = [''abc'', ''d'', ''ef'', ''gh''] \<and>
   words_of (''abc'' @ [CHR 0x09] @ ''def gh'') = [''abc'', ''def'', ''gh''] \<and>
   chunk_content ''abcdef'' 3 = Some [''abc'', ''def''] \<and>
   words_of (join '' '' [''abc'', ''def'']) = [''abc'', ''def''] \<and>
   words_of ''abcdef'' = [''abcdef'']"
  by code_simp

text \<open>
  A word that fits is also cut when the input starts with a space, because a space at
  index 0 is not taken as a cut point.
\<close>

lemma chunk_content_leading_space:
  "chunk_content '' abc'' 3 = Some [''ab'', ''c''] \<and> words_of '' abc'' = [''abc'']"
  by code_simp

text \<open>
  C3, amended. For a chunk size of at least 1 the chunker returns, and every chunk, the
  last one too, is at most the chunk size long. If the only whitespace characters of
  the input are spaces, the input does not start with one, and none of its words is
  longer than the chunk size, then the chunks joined by single spaces have the words of
  the input, in their order.
\<close>

theorem chunk_content_words:
  assumes "1 \<le> chunk_size"
  shows "\<exists>chunks. chunk_content S chunk_size = Some chunks \<and>
           (\<forall>c\<in>set chunks. int (length c) \<le> chunk_size) \<and>
           (only_spaces S \<and> no_lead S \<and> words_fit chunk_size S \<longrightarrow>
              words_of (join '' '' chunks) = words_of S)"
  using chunk_loop_result [OF assms, of S "[]"]
  by (simp add: chunk_content_def words_of_join)

theorem chunk_content_words_witness:
  "chunk_content ''the quick  brown fox'' 9 = Some [''the'', ''quick'', ''brown fox''] \<and>
   words_of (join '' '' [''the'', ''quick'', ''brown fox'']) = words_of ''the quick  brown fox''"
proof -
  have ok: "only_spaces ''the quick  brown fox'' \<and> no_lead ''the quick  brown fox'' \<and>
      words_fit 9 ''the quick  brown fox''"
    by code_simp
  have run: "chunk_content ''the quick  brown fox'' 9 = Some [''the'', ''quick'', ''brown fox'']"
    by code_simp
  from chunk_content_words [of 9 "''the quick  brown fox''"] ok run show ?thesis
    by auto
qed

end
